theory Spec2Isabelle
  imports Main "HOL-Library.Word" "HOL-Library.Sublist"
begin

unbundle bit_operations_syntax

section \<open>Data model of \<^verbatim>\<open>keyboard_common.go\<close>\<close>

text \<open>
  Go's \<^verbatim>\<open>byte\<close> is an 8-bit word, \<^verbatim>\<open>Key\<close> is \<^verbatim>\<open>uint16\<close> and \<^verbatim>\<open>rune\<close> is
  \<^verbatim>\<open>int32\<close>. A Go \<^verbatim>\<open>string\<close> and a \<^verbatim>\<open>[]byte\<close> are both byte sequences. An
  \<^verbatim>\<open>error\<close> is an interface value that may be \<^verbatim>\<open>nil\<close>: it is modelled as
  \<open>error option\<close>, where an error is the text its method \<^verbatim>\<open>Error()\<close> returns.
\<close>

type_synonym error = string

type_synonym byte = "8 word"
type_synonym Key = "16 word"
type_synonym rune = "32 word"

record keyEvent =
  key :: Key
  rune :: rune
  err :: "error option"

record input_event =
  data :: "byte list"
  err :: "error option"

text \<open>The Go composite literals \<^verbatim>\<open>keyEvent{key: k}\<close>, \<^verbatim>\<open>keyEvent{rune: r}\<close> and
  \<^verbatim>\<open>keyEvent{err: e}\<close>: the fields left out hold their zero values.\<close>

definition keyEvent_zero :: "keyEvent" where
  "keyEvent_zero = \<lparr>key = 0, rune = 0, err = None\<rparr>"

definition keyEvent_key :: "Key \<Rightarrow> keyEvent" where
  "keyEvent_key k = \<lparr>key = k, rune = 0, err = None\<rparr>"

definition keyEvent_rune :: "rune \<Rightarrow> keyEvent" where
  "keyEvent_rune r = \<lparr>key = 0, rune = r, err = None\<rparr>"

definition keyEvent_err :: "error \<Rightarrow> keyEvent" where
  "keyEvent_err e = \<lparr>key = 0, rune = 0, err = Some e\<rparr>"

subsection \<open>Key constants\<close>

definition KeyF1 :: Key where "KeyF1 = 0xFFFF"
definition KeyArrowUp :: Key where "KeyArrowUp = 0xFFFF - 18"
definition KeyCtrlC :: Key where "KeyCtrlC = 0x03"
definition KeyEsc :: Key where "KeyEsc = 0x1B"
definition KeySpace :: Key where "KeySpace = 0x20"
definition KeyBackspace2 :: Key where "KeyBackspace2 = 0x7F"

section \<open>\<^verbatim>\<open>unicode/utf8.DecodeRune\<close>\<close>

text \<open>
  \<^verbatim>\<open>extract_event\<close> calls \<^verbatim>\<open>utf8.DecodeRune\<close> of Go's standard library, which is not
  part of the repository. The model below follows the library's source: the table
  \<^verbatim>\<open>first\<close> of per-byte information, the table \<^verbatim>\<open>acceptRanges\<close> of the ranges
  allowed for the second byte, and the function body with its bit operations.
\<close>

definition RuneError :: rune where "RuneError = 0xFFFD"

definition maskx :: byte where "maskx = 0x3F"
definition mask2 :: byte where "mask2 = 0x1F"
definition mask3 :: byte where "mask3 = 0x0F"
definition mask4 :: byte where "mask4 = 0x07"
definition locb :: byte where "locb = 0x80"
definition hicb :: byte where "hicb = 0xBF"

definition utf8_xx :: byte where "utf8_xx = 0xF1"
definition utf8_as :: byte where "utf8_as = 0xF0"
definition utf8_s1 :: byte where "utf8_s1 = 0x02"
definition utf8_s2 :: byte where "utf8_s2 = 0x13"
definition utf8_s3 :: byte where "utf8_s3 = 0x03"
definition utf8_s4 :: byte where "utf8_s4 = 0x23"
definition utf8_s5 :: byte where "utf8_s5 = 0x34"
definition utf8_s6 :: byte where "utf8_s6 = 0x04"
definition utf8_s7 :: byte where "utf8_s7 = 0x44"

text \<open>The 256-entry table \<^verbatim>\<open>first\<close>, written by its ranges.\<close>

definition utf8_first :: "byte \<Rightarrow> byte" where
  "utf8_first b =
     (if b \<le> 0x7F then utf8_as
      else if b \<le> 0xC1 then utf8_xx
      else if b \<le> 0xDF then utf8_s1
      else if b = 0xE0 then utf8_s2
      else if b \<le> 0xEC then utf8_s3
      else if b = 0xED then utf8_s4
      else if b \<le> 0xEF then utf8_s3
      else if b = 0xF0 then utf8_s5
      else if b \<le> 0xF3 then utf8_s6
      else if b = 0xF4 then utf8_s7
      else utf8_xx)"

text \<open>\<^verbatim>\<open>acceptRanges\<close> has 16 entries; those past index 4 are zero values.\<close>

definition acceptRanges :: "nat \<Rightarrow> byte \<times> byte" where
  "acceptRanges i =
     (if i = 0 then (locb, hicb)
      else if i = 1 then (0xA0, hicb)
      else if i = 2 then (locb, 0x9F)
      else if i = 3 then (0x90, hicb)
      else if i = 4 then (locb, 0x8F)
      else (0, 0))"

definition DecodeRune :: "byte list \<Rightarrow> rune \<times> nat" where
  "DecodeRune p =
     (let n = length p in
      if n < 1 then (RuneError, 0)
      else
        let p0 = p ! 0; x = utf8_first p0 in
        if x \<ge> utf8_as then
          (let mask = signed_drop_bit 31 (push_bit 31 (ucast x :: rune))
           in ((ucast p0 AND NOT mask) OR (RuneError AND mask), 1))
        else
          let sz = unat (x AND 7); accept = acceptRanges (unat (drop_bit 4 x)) in
          if n < sz then (RuneError, 1)
          else
            let b1 = p ! 1 in
            if b1 < fst accept \<or> snd accept < b1 then (RuneError, 1)
            else if sz \<le> 2 then
              (push_bit 6 (ucast (p0 AND mask2)) OR ucast (b1 AND maskx), 2)
            else
              let b2 = p ! 2 in
              if b2 < locb \<or> hicb < b2 then (RuneError, 1)
              else if sz \<le> 3 then
                (push_bit 12 (ucast (p0 AND mask3)) OR push_bit 6 (ucast (b1 AND maskx))
                   OR ucast (b2 AND maskx), 3)
              else
                let b3 = p ! 3 in
                if b3 < locb \<or> hicb < b3 then (RuneError, 1)
                else
                  (push_bit 18 (ucast (p0 AND mask4)) OR push_bit 12 (ucast (b1 AND maskx))
                     OR push_bit 6 (ucast (b2 AND maskx)) OR ucast (b3 AND maskx), 4))"

section \<open>The decoder\<close>

text \<open>
  \<^verbatim>\<open>keys\<close> is the table of the terminal's escape sequences, filled at start-up by
  code outside this file; every function that reads it takes it as a parameter. The
  loop of \<^verbatim>\<open>parse_escape_sequence\<close> runs over the table with the index \<open>i\<close>;
  \<^verbatim>\<open>Key(0xFFFF - i)\<close> converts an \<^verbatim>\<open>int\<close> to \<^verbatim>\<open>uint16\<close>, keeping the low 16 bits.
\<close>

fun parse_escape_sequence_from :: "nat \<Rightarrow> byte list list \<Rightarrow> byte list \<Rightarrow> nat \<times> keyEvent" where
  "parse_escape_sequence_from i [] bufstr = (0, keyEvent_zero)"
| "parse_escape_sequence_from i (k # ks) bufstr =
     (if prefix k bufstr
      then (length k, keyEvent_zero\<lparr>rune := 0, key := word_of_int (0xFFFF - int i)\<rparr>)
      else parse_escape_sequence_from (Suc i) ks bufstr)"

definition parse_escape_sequence :: "byte list list \<Rightarrow> byte list \<Rightarrow> nat \<times> keyEvent" where
  "parse_escape_sequence keys buf = parse_escape_sequence_from 0 keys buf"

text \<open>
  \<^verbatim>\<open>extract_event\<close> sends the event it decodes on the channel \<^verbatim>\<open>input_comm\<close> and
  returns the number of bytes the event took. The model returns that size together
  with the list of events sent, in the order of sending.
\<close>

definition extract_event :: "byte list list \<Rightarrow> byte list \<Rightarrow> nat \<times> keyEvent list" where
  "extract_event keys inbuf =
     (if length inbuf = 0 then (0, [])
      else if inbuf ! 0 = 0x1B then
        (case parse_escape_sequence keys inbuf of
           (sz, event) \<Rightarrow>
             if sz \<noteq> 0 then (sz, [event])
             else (1, [keyEvent_key KeyEsc]))
      else if ucast (inbuf ! 0) \<le> KeySpace \<or> ucast (inbuf ! 0) = KeyBackspace2 then
        (1, [keyEvent_key (ucast (inbuf ! 0))])
      else
        (case DecodeRune inbuf of
           (r, n) \<Rightarrow>
             if r \<noteq> RuneError then (n, [keyEvent_rune r])
             else (0, [])))"

section \<open>The assembler\<close>

text \<open>
  The built-in \<^verbatim>\<open>copy(dst, src)\<close> overwrites the first \<open>min (len dst) (len src)\<close>
  elements of \<^verbatim>\<open>dst\<close> with those of \<^verbatim>\<open>src\<close>, in order.
\<close>

definition copy_bytes :: "byte list \<Rightarrow> byte list \<Rightarrow> byte list" where
  "copy_bytes dst src =
     (let n = min (length dst) (length src) in take n src @ drop n dst)"

text \<open>
  The two statements \<^verbatim>\<open>copy(inbuf, inbuf[size:])\<close> and
  \<^verbatim>\<open>inbuf = inbuf[:len(inbuf)-size]\<close>. The slice expression \<^verbatim>\<open>inbuf[size:]\<close>
  panics when \<^verbatim>\<open>size\<close> is greater than \<^verbatim>\<open>len(inbuf)\<close>: the result \<open>None\<close>.
\<close>

definition shift_inbuf :: "byte list \<Rightarrow> nat \<Rightarrow> byte list option" where
  "shift_inbuf inbuf sz =
     (if length inbuf < sz then None
      else Some (take (length inbuf - sz) (copy_bytes inbuf (drop sz inbuf))))"

text \<open>
  The state of the goroutine \<^verbatim>\<open>inputEventsProducer\<close>: the global buffer
  \<^verbatim>\<open>inbuf\<close>, and the events sent on the channel \<^verbatim>\<open>input_comm\<close> so far, oldest
  first.
\<close>

record assembler =
  inbuf :: "byte list"
  input_comm :: "keyEvent list"

definition assembler_init :: assembler where
  "assembler_init = \<lparr>inbuf = [], input_comm = []\<rparr>"

text \<open>
  The fragment that stands twice in \<^verbatim>\<open>inputEventsProducer\<close>, before the loop and
  after each chunk: one call of \<^verbatim>\<open>extract_event\<close>, and the shift of the buffer when
  the size returned is not 0.
\<close>

definition extract_and_shift :: "byte list list \<Rightarrow> assembler \<Rightarrow> assembler option" where
  "extract_and_shift keys s =
     (case extract_event keys (inbuf s) of
        (sz, sent) \<Rightarrow>
          let s' = s\<lparr>input_comm := input_comm s @ sent\<rparr> in
          if sz \<noteq> 0 then
            (case shift_inbuf (inbuf s') sz of
               None \<Rightarrow> None
             | Some b \<Rightarrow> Some (s'\<lparr>inbuf := b\<rparr>))
          else Some s')"

text \<open>
  What the \<^verbatim>\<open>select\<close> of the loop receives: an \<^verbatim>\<open>input_event\<close> from the channel
  \<^verbatim>\<open>input_buf\<close>, or a value from the channel \<^verbatim>\<open>quit\<close>. The goroutine is run on
  the list of the values it receives. It ends waiting in the \<^verbatim>\<open>select\<close> when the
  list is used up, or returned, or stopped by a run-time panic.
\<close>

datatype received = Input input_event | Quit

datatype outcome = Waiting assembler | Returned assembler | Panicked

fun producer_loop :: "byte list list \<Rightarrow> assembler \<Rightarrow> received list \<Rightarrow> outcome" where
  "producer_loop keys s [] = Waiting s"
| "producer_loop keys s (Quit # rest) = Returned s"
| "producer_loop keys s (Input ev # rest) =
     (case input_event.err ev of
        Some e \<Rightarrow> Returned (s\<lparr>input_comm := input_comm s @ [keyEvent_err e]\<rparr>)
      | None \<Rightarrow>
          (case extract_and_shift keys (s\<lparr>inbuf := inbuf s @ data ev\<rparr>) of
             None \<Rightarrow> Panicked
           | Some s' \<Rightarrow> producer_loop keys s' rest))"

definition inputEventsProducer :: "byte list list \<Rightarrow> assembler \<Rightarrow> received list \<Rightarrow> outcome" where
  "inputEventsProducer keys s msgs =
     (case extract_and_shift keys s of
        None \<Rightarrow> Panicked
      | Some s' \<Rightarrow> producer_loop keys s' msgs)"

text \<open>The events sent on \<^verbatim>\<open>input_comm\<close> by the time the goroutine has come to an outcome.\<close>

fun outcome_events :: "outcome \<Rightarrow> keyEvent list" where
  "outcome_events (Waiting s) = input_comm s"
| "outcome_events (Returned s) = input_comm s"
| "outcome_events Panicked = []"

text \<open>A chunk of bytes read without error, as the reader goroutine sends it.\<close>

definition chunk :: "byte list \<Rightarrow> received" where
  "chunk bs = Input \<lparr>data = bs, err = None\<rparr>"

definition failure :: "error \<Rightarrow> received" where
  "failure e = Input \<lparr>data = [], err = Some e\<rparr>"

section \<open>Notions used to state the properties\<close>

text \<open>
  A key table for the examples: the 22 escape sequences of an rxvt terminal, in the
  order of the key constants from \<^verbatim>\<open>KeyF1\<close> down to \<^verbatim>\<open>KeyArrowRight\<close>. Entry 18,
  the bytes of \<^verbatim>\<open>"\x1b[A"\<close>, stands for \<^verbatim>\<open>KeyArrowUp\<close>.
\<close>

definition sample_keys :: "byte list list" where
  "sample_keys =
    [[0x1B, 0x5B, 0x31, 0x31, 0x7E], [0x1B, 0x5B, 0x31, 0x32, 0x7E],
     [0x1B, 0x5B, 0x31, 0x33, 0x7E], [0x1B, 0x5B, 0x31, 0x34, 0x7E],
     [0x1B, 0x5B, 0x31, 0x35, 0x7E], [0x1B, 0x5B, 0x31, 0x37, 0x7E],
     [0x1B, 0x5B, 0x31, 0x38, 0x7E], [0x1B, 0x5B, 0x31, 0x39, 0x7E],
     [0x1B, 0x5B, 0x32, 0x30, 0x7E], [0x1B, 0x5B, 0x32, 0x31, 0x7E],
     [0x1B, 0x5B, 0x32, 0x33, 0x7E], [0x1B, 0x5B, 0x32, 0x34, 0x7E],
     [0x1B, 0x5B, 0x32, 0x7E], [0x1B, 0x5B, 0x33, 0x7E],
     [0x1B, 0x5B, 0x37, 0x7E], [0x1B, 0x5B, 0x38, 0x7E],
     [0x1B, 0x5B, 0x35, 0x7E], [0x1B, 0x5B, 0x36, 0x7E],
     [0x1B, 0x5B, 0x41], [0x1B, 0x5B, 0x42],
     [0x1B, 0x5B, 0x44], [0x1B, 0x5B, 0x43]]"

text \<open>Some entry of the table is a prefix of the buffer.\<close>

definition some_entry_matches :: "byte list list \<Rightarrow> byte list \<Rightarrow> bool" where
  "some_entry_matches keys buf = list_ex (\<lambda>k. prefix k buf) keys"

text \<open>
  Some extension of the buffer by further bytes has an entry of the table as a prefix:
  an entry is a prefix of the buffer already, or the buffer is a prefix of an entry.
\<close>

definition extension_may_match :: "byte list list \<Rightarrow> byte list \<Rightarrow> bool" where
  "extension_may_match keys buf = list_ex (\<lambda>k. prefix buf k \<or> prefix k buf) keys"

text \<open>
  The selection the specification describes, to compare with the loop of
  \<^verbatim>\<open>parse_escape_sequence\<close>: the index and the bytes of the longest entry that is a
  prefix of the buffer, the first one in table order among the longest.
\<close>

fun spec_longest_match_from :: "nat \<Rightarrow> byte list list \<Rightarrow> byte list \<Rightarrow> (nat \<times> byte list) option" where
  "spec_longest_match_from i [] buf = None"
| "spec_longest_match_from i (k # ks) buf =
     (case spec_longest_match_from (Suc i) ks buf of
        None \<Rightarrow> if prefix k buf then Some (i, k) else None
      | Some (j, k') \<Rightarrow>
          if prefix k buf \<and> length k' \<le> length k then Some (i, k) else Some (j, k'))"

definition spec_longest_match :: "byte list list \<Rightarrow> byte list \<Rightarrow> (nat \<times> byte list) option" where
  "spec_longest_match keys buf = spec_longest_match_from 0 keys buf"

text \<open>
  The three variants of a key event, as the specification tells them apart, and the
  property that an event is of exactly one of them.
\<close>

definition is_symbolic_key_event :: "keyEvent \<Rightarrow> bool" where
  "is_symbolic_key_event e \<longleftrightarrow> keyEvent.rune e = 0 \<and> keyEvent.err e = None"

definition is_character_event :: "keyEvent \<Rightarrow> bool" where
  "is_character_event e \<longleftrightarrow> keyEvent.rune e \<noteq> 0 \<and> key e = 0 \<and> keyEvent.err e = None"

definition is_failure_event :: "keyEvent \<Rightarrow> bool" where
  "is_failure_event e \<longleftrightarrow> keyEvent.err e \<noteq> None \<and> key e = 0 \<and> keyEvent.rune e = 0"

definition one_variant :: "keyEvent \<Rightarrow> bool" where
  "one_variant e \<longleftrightarrow>
     length (filter id [is_symbolic_key_event e, is_character_event e, is_failure_event e]) = 1"

text \<open>
  UTF-8, to state what \<^verbatim>\<open>DecodeRune\<close> decodes: the Unicode scalar values are the code
  points up to \<^verbatim>\<open>U+10FFFF\<close> outside the surrogate range \<^verbatim>\<open>U+D800..U+DFFF\<close>, and the
  encoding of a scalar value has one to four bytes.
\<close>

definition scalar_value :: "nat \<Rightarrow> bool" where
  "scalar_value c \<longleftrightarrow> c < 0xD800 \<or> (0xE000 \<le> c \<and> c \<le> 0x10FFFF)"

definition utf8_encoding :: "nat \<Rightarrow> byte list" where
  "utf8_encoding c =
     (if c < 0x80 then [of_nat c]
      else if c < 0x800 then [of_nat (0xC0 + c div 64), of_nat (0x80 + c mod 64)]
      else if c < 0x10000 then
        [of_nat (0xE0 + c div 4096), of_nat (0x80 + c div 64 mod 64), of_nat (0x80 + c mod 64)]
      else
        [of_nat (0xF0 + c div 262144), of_nat (0x80 + c div 4096 mod 64),
         of_nat (0x80 + c div 64 mod 64), of_nat (0x80 + c mod 64)])"

text \<open>
  The bounds that \<^verbatim>\<open>acceptRanges\<close> puts on the second byte of a sequence, by the value
  of the first byte, and the range of a continuation byte.
\<close>

definition second_lo :: "nat \<Rightarrow> nat" where
  "second_lo a = (if a = 0xE0 then 0xA0 else if a = 0xF0 then 0x90 else 0x80)"

definition second_hi :: "nat \<Rightarrow> nat" where
  "second_hi a = (if a = 0xED then 0x9F else if a = 0xF4 then 0x8F else 0xBF)"

definition is_cont :: "byte \<Rightarrow> bool" where
  "is_cont b \<longleftrightarrow> 0x80 \<le> unat b \<and> unat b \<le> 0xBF"

section \<open>Basic facts\<close>

subsection \<open>Bytes as keys and runes\<close>

lemma unat_byte_less: "unat (b::byte) < 256"
  using unsigned_less [of b, where 'a = nat] by simp

lemma unat_ucast_byte_Key: "unat (ucast (b::byte) :: Key) = unat b"
  using unat_byte_less [of b] by (simp add: unsigned_ucast_eq take_bit_nat_eq_self)

lemma unat_ucast_byte_rune: "unat (ucast (b::byte) :: rune) = unat b"
  using unat_byte_less [of b] by (simp add: unsigned_ucast_eq take_bit_nat_eq_self)

lemma ucast_byte_le_KeySpace: "ucast (b::byte) \<le> KeySpace \<longleftrightarrow> b \<le> 0x20"
  by (simp add: KeySpace_def word_le_nat_alt unat_ucast_byte_Key)

lemma ucast_byte_eq_KeyBackspace2: "ucast (b::byte) = KeyBackspace2 \<longleftrightarrow> b = 0x7F"
  by (simp add: KeyBackspace2_def word_unat_eq_iff unat_ucast_byte_Key)

subsection \<open>The size returned never exceeds the buffer\<close>

lemmas utf8_consts = utf8_xx_def utf8_as_def utf8_s1_def utf8_s2_def utf8_s3_def utf8_s4_def
  utf8_s5_def utf8_s6_def utf8_s7_def locb_def hicb_def maskx_def mask2_def mask3_def mask4_def

lemma utf8_first_sz:
  "utf8_first b < utf8_as \<Longrightarrow> unat (utf8_first b AND 7) \<in> {2, 3, 4}"
  by (simp add: utf8_first_def utf8_consts split: if_splits)

lemma DecodeRune_size: "p \<noteq> [] \<Longrightarrow> snd (DecodeRune p) \<le> length p"
  using utf8_first_sz [of "hd p"]
  by (cases p) (auto simp: DecodeRune_def Let_def not_le Suc_le_eq)

lemma parse_escape_sequence_from_size:
  "fst (parse_escape_sequence_from i ks buf) \<le> length buf"
  by (induction ks arbitrary: i) (auto simp: prefix_length_le)

lemma extract_event_size: "fst (extract_event keys buf) \<le> length buf"
  using DecodeRune_size [of buf] parse_escape_sequence_from_size [of 0 keys buf]
  by (cases buf) (auto simp: extract_event_def parse_escape_sequence_def split: prod.splits)

subsection \<open>Shifting the buffer\<close>

lemma copy_bytes_tail:
  "sz \<le> length b \<Longrightarrow> take (length b - sz) (copy_bytes b (drop sz b)) = drop sz b"
  by (simp add: copy_bytes_def Let_def min_def)

lemma shift_inbuf_drop: "sz \<le> length b \<Longrightarrow> shift_inbuf b sz = Some (drop sz b)"
  by (simp add: shift_inbuf_def copy_bytes_tail)

lemma extract_and_shift_eq:
  "extract_and_shift keys s =
     Some (s\<lparr>input_comm := input_comm s @ snd (extract_event keys (inbuf s)),
             inbuf := drop (fst (extract_event keys (inbuf s))) (inbuf s)\<rparr>)"
  using extract_event_size [of keys "inbuf s"]
  by (cases "extract_event keys (inbuf s)") (simp add: extract_and_shift_def shift_inbuf_drop Let_def)

subsection \<open>Runs of the goroutine\<close>

lemma extract_event_control:
  assumes "b \<noteq> 0x1B" and "b \<le> 0x20 \<or> b = 0x7F"
  shows "extract_event keys (b # bs) = (1, [keyEvent_key (ucast b)])"
  using assms by (simp add: extract_event_def ucast_byte_le_KeySpace ucast_byte_eq_KeyBackspace2)

lemma producer_loop_append:
  "producer_loop keys s msgs = Waiting s1 \<Longrightarrow>
   producer_loop keys s (msgs @ later) = producer_loop keys s1 later"
proof (induction keys s msgs rule: producer_loop.induct)
  case (1 keys s)
  then show ?case by simp
next
  case (2 keys s rest)
  then show ?case by simp
next
  case (3 keys s ev rest)
  then show ?case
    by (cases "input_event.err ev") (simp_all add: extract_and_shift_eq)
qed

lemma inputEventsProducer_append:
  "inputEventsProducer keys s msgs = Waiting s1 \<Longrightarrow>
   inputEventsProducer keys s (msgs @ later) = producer_loop keys s1 later"
  by (simp add: inputEventsProducer_def extract_and_shift_eq producer_loop_append)

lemma producer_loop_chunk:
  "producer_loop keys s (chunk c # later) =
     producer_loop keys
       (s\<lparr>input_comm := input_comm s @ snd (extract_event keys (inbuf s @ c)),
          inbuf := drop (fst (extract_event keys (inbuf s @ c))) (inbuf s @ c)\<rparr>) later"
  by (simp add: chunk_def extract_and_shift_eq)

subsection \<open>The loop over the key table\<close>

lemma some_entry_matches_iff:
  "some_entry_matches keys buf \<longleftrightarrow> (\<exists>k \<in> set keys. prefix k buf)"
  by (simp add: some_entry_matches_def list_ex_iff)

lemma parse_escape_sequence_from_none:
  "\<forall>k \<in> set ks. \<not> prefix k buf \<Longrightarrow> parse_escape_sequence_from n ks buf = (0, keyEvent_zero)"
  by (induction ks arbitrary: n) auto

lemma parse_escape_sequence_from_first:
  "i < length ks \<Longrightarrow> prefix (ks ! i) buf \<Longrightarrow> \<forall>j<i. \<not> prefix (ks ! j) buf \<Longrightarrow>
   parse_escape_sequence_from n ks buf =
     (length (ks ! i), keyEvent_key (word_of_int (0xFFFF - int (n + i))))"
proof (induction ks arbitrary: n i)
  case Nil
  then show ?case by simp
next
  case (Cons k ks)
  show ?case
  proof (cases i)
    case 0
    with Cons.prems show ?thesis
      by (simp add: keyEvent_zero_def keyEvent_key_def)
  next
    case (Suc i')
    with Cons.prems have nk: "\<not> prefix k buf" by auto
    from Suc Cons.prems have "\<forall>j<i'. \<not> prefix (ks ! j) buf" by auto
    with Suc Cons.prems Cons.IH [of i' "Suc n"] nk show ?thesis by simp
  qed
qed

subsection \<open>A size of 0 means that nothing was sent\<close>

lemma DecodeRune_size_pos: "p \<noteq> [] \<Longrightarrow> 0 < snd (DecodeRune p)"
  by (cases p) (auto simp: DecodeRune_def Let_def)

lemma extract_event_no_size_no_event:
  "fst (extract_event keys buf) = 0 \<Longrightarrow> snd (extract_event keys buf) = []"
  using DecodeRune_size_pos [of buf]
  by (cases buf) (auto simp: extract_event_def split: prod.splits if_splits)

subsection \<open>The runes of \<^verbatim>\<open>DecodeRune\<close> as numbers\<close>

lemma or_push_take_nat:
  "push_bit n (a::nat) OR take_bit n b = push_bit n a + take_bit n b"
proof -
  have "push_bit n a AND take_bit n b = 0"
    by (auto simp: bit_eq_iff bit_simps)
  then show ?thesis
    by (simp add: disjunctive_add_eq_or)
qed

lemma unat_or_push:
  assumes "unat (b::rune) < 2 ^ n"
  shows "unat (push_bit n a OR b) = unat (push_bit n a) + unat b"
proof -
  have "unat (push_bit n a) = push_bit n (take_bit (32 - n) (unat a))"
    by (simp only: unsigned_push_bit_eq take_bit_push_bit) simp
  moreover from assms have "unat b = take_bit n (unat b)"
    by (simp add: take_bit_nat_eq_self)
  ultimately show ?thesis
    by (metis or_push_take_nat unsigned_or_eq)
qed

lemma unat_push_bit_rune:
  assumes "unat x * 2 ^ n < 2 ^ 32"
  shows "unat (push_bit n (x::rune)) = unat x * 2 ^ n"
proof -
  have "unat (push_bit n x) = take_bit 32 (push_bit n (unat x))"
    by (simp add: unsigned_push_bit_eq)
  also from assms have "\<dots> = push_bit n (unat x)"
    by (simp add: take_bit_nat_eq_self push_bit_eq_mult)
  finally show ?thesis
    by (simp add: push_bit_eq_mult)
qed

lemma byte_and_maskx: "(b::byte) AND maskx = take_bit 6 b"
  by (simp add: maskx_def take_bit_eq_mask mask_eq_exp_minus_1)
lemma byte_and_mask2: "(b::byte) AND mask2 = take_bit 5 b"
  by (simp add: mask2_def take_bit_eq_mask mask_eq_exp_minus_1)
lemma byte_and_mask3: "(b::byte) AND mask3 = take_bit 4 b"
  by (simp add: mask3_def take_bit_eq_mask mask_eq_exp_minus_1)
lemma byte_and_mask4: "(b::byte) AND mask4 = take_bit 3 b"
  by (simp add: mask4_def take_bit_eq_mask mask_eq_exp_minus_1)

lemma unat_low_bits:
  assumes "k \<le> 8"
  shows "unat (ucast (take_bit k (b::byte)) :: rune) = unat b mod 2 ^ k"
proof -
  have "unat (ucast (take_bit k b) :: rune) = take_bit 32 (take_bit k (unat b))"
    by (simp add: unsigned_ucast_eq unsigned_take_bit_eq min.commute)
  also from assms have "\<dots> = take_bit k (unat b)"
    by (simp add: min_def)
  finally show ?thesis
    by (simp add: take_bit_eq_mod)
qed

lemma unat_rune2:
  "unat (push_bit 6 (ucast ((p0::byte) AND mask2)) OR ucast ((b1::byte) AND maskx) :: rune) =
     (unat p0 mod 32) * 64 + unat b1 mod 64"
proof -
  let ?X = "ucast (take_bit 5 p0) :: rune" and ?Y = "ucast (take_bit 6 b1) :: rune"
  have x: "unat ?X = unat p0 mod 32" and y: "unat ?Y = unat b1 mod 64"
    by (simp_all add: unat_low_bits)
  have "unat (push_bit 6 ?X OR ?Y) = unat (push_bit 6 ?X) + unat ?Y"
    by (rule unat_or_push) (simp add: y)
  also have "unat (push_bit 6 ?X) = unat ?X * 2 ^ 6"
    by (rule unat_push_bit_rune) (simp add: x)
  finally show ?thesis
    by (simp add: x y byte_and_maskx byte_and_mask2)
qed

lemma unat_rune3:
  "unat (push_bit 12 (ucast ((p0::byte) AND mask3)) OR push_bit 6 (ucast ((b1::byte) AND maskx))
      OR ucast ((b2::byte) AND maskx) :: rune) =
     (unat p0 mod 16) * 4096 + (unat b1 mod 64) * 64 + unat b2 mod 64"
proof -
  let ?X = "ucast (take_bit 4 p0) :: rune" and ?Y = "ucast (take_bit 6 b1) :: rune"
    and ?Z = "ucast (take_bit 6 b2) :: rune"
  have x: "unat ?X = unat p0 mod 16" and y: "unat ?Y = unat b1 mod 64"
    and z: "unat ?Z = unat b2 mod 64"
    by (simp_all add: unat_low_bits)
  have py: "unat (push_bit 6 ?Y) = unat ?Y * 2 ^ 6"
    by (rule unat_push_bit_rune) (simp add: y)
  have yz: "unat (push_bit 6 ?Y OR ?Z) = unat (push_bit 6 ?Y) + unat ?Z"
    by (rule unat_or_push) (simp add: z)
  have "unat (push_bit 12 ?X OR (push_bit 6 ?Y OR ?Z)) =
      unat (push_bit 12 ?X) + unat (push_bit 6 ?Y OR ?Z)"
    by (rule unat_or_push) (simp add: yz py y z)
  also have "unat (push_bit 12 ?X) = unat ?X * 2 ^ 12"
    by (rule unat_push_bit_rune) (simp add: x)
  finally show ?thesis
    by (simp add: x y z yz py byte_and_maskx byte_and_mask3)
qed

lemma unat_rune4:
  "unat (push_bit 18 (ucast ((p0::byte) AND mask4)) OR push_bit 12 (ucast ((b1::byte) AND maskx))
      OR push_bit 6 (ucast ((b2::byte) AND maskx)) OR ucast ((b3::byte) AND maskx) :: rune) =
     (unat p0 mod 8) * 262144 + (unat b1 mod 64) * 4096 + (unat b2 mod 64) * 64 + unat b3 mod 64"
proof -
  let ?X = "ucast (take_bit 3 p0) :: rune" and ?Y = "ucast (take_bit 6 b1) :: rune"
    and ?Z = "ucast (take_bit 6 b2) :: rune" and ?W = "ucast (take_bit 6 b3) :: rune"
  have x: "unat ?X = unat p0 mod 8" and y: "unat ?Y = unat b1 mod 64"
    and z: "unat ?Z = unat b2 mod 64" and w: "unat ?W = unat b3 mod 64"
    by (simp_all add: unat_low_bits)
  have pz: "unat (push_bit 6 ?Z) = unat ?Z * 2 ^ 6"
    by (rule unat_push_bit_rune) (simp add: z)
  have zw: "unat (push_bit 6 ?Z OR ?W) = unat (push_bit 6 ?Z) + unat ?W"
    by (rule unat_or_push) (simp add: w)
  have py: "unat (push_bit 12 ?Y) = unat ?Y * 2 ^ 12"
    by (rule unat_push_bit_rune) (simp add: y)
  have yzw: "unat (push_bit 12 ?Y OR (push_bit 6 ?Z OR ?W)) =
      unat (push_bit 12 ?Y) + unat (push_bit 6 ?Z OR ?W)"
    by (rule unat_or_push) (simp add: zw pz z w)
  have "unat (push_bit 18 ?X OR (push_bit 12 ?Y OR (push_bit 6 ?Z OR ?W))) =
      unat (push_bit 18 ?X) + unat (push_bit 12 ?Y OR (push_bit 6 ?Z OR ?W))"
    by (rule unat_or_push) (simp add: yzw zw py pz y z w)
  also have "unat (push_bit 18 ?X) = unat ?X * 2 ^ 18"
    by (rule unat_push_bit_rune) (simp add: x)
  finally show ?thesis
    by (simp add: x y z w yzw zw py pz byte_and_maskx byte_and_mask4)
qed


lemma utf8_first_unat:
  "utf8_first b =
     (if unat b \<le> 0x7F then utf8_as
      else if unat b \<le> 0xC1 then utf8_xx
      else if unat b \<le> 0xDF then utf8_s1
      else if unat b = 0xE0 then utf8_s2
      else if unat b \<le> 0xEC then utf8_s3
      else if unat b = 0xED then utf8_s4
      else if unat b \<le> 0xEF then utf8_s3
      else if unat b = 0xF0 then utf8_s5
      else if unat b \<le> 0xF3 then utf8_s6
      else if unat b = 0xF4 then utf8_s7
      else utf8_xx)"
  by (simp add: utf8_first_def word_le_nat_alt word_unat_eq_iff)

lemma utf8_info:
  "utf8_as \<le> utf8_as" "utf8_as \<le> utf8_xx"
  "\<not> utf8_as \<le> utf8_s1" "\<not> utf8_as \<le> utf8_s2" "\<not> utf8_as \<le> utf8_s3" "\<not> utf8_as \<le> utf8_s4"
  "\<not> utf8_as \<le> utf8_s5" "\<not> utf8_as \<le> utf8_s6" "\<not> utf8_as \<le> utf8_s7"
  "unat (utf8_s1 AND 7) = 2" "unat (utf8_s2 AND 7) = 3" "unat (utf8_s3 AND 7) = 3"
  "unat (utf8_s4 AND 7) = 3" "unat (utf8_s5 AND 7) = 4" "unat (utf8_s6 AND 7) = 4"
  "unat (utf8_s7 AND 7) = 4"
  "acceptRanges (unat (drop_bit 4 utf8_s1)) = (0x80, 0xBF)"
  "acceptRanges (unat (drop_bit 4 utf8_s2)) = (0xA0, 0xBF)"
  "acceptRanges (unat (drop_bit 4 utf8_s3)) = (0x80, 0xBF)"
  "acceptRanges (unat (drop_bit 4 utf8_s4)) = (0x80, 0x9F)"
  "acceptRanges (unat (drop_bit 4 utf8_s5)) = (0x90, 0xBF)"
  "acceptRanges (unat (drop_bit 4 utf8_s6)) = (0x80, 0xBF)"
  "acceptRanges (unat (drop_bit 4 utf8_s7)) = (0x80, 0x8F)"
  by (simp_all add: utf8_consts acceptRanges_def)

lemma mask_ascii:
  "signed_drop_bit 31 (push_bit 31 (ucast utf8_as :: rune)) = 0"
  "signed_drop_bit 31 (push_bit 31 (ucast utf8_xx :: rune)) = - 1"
  by (simp_all add: utf8_consts)

lemma DecodeRune_ascii: "unat p0 \<le> 0x7F \<Longrightarrow> DecodeRune (p0 # rest) = (ucast p0, 1)"
  by (simp add: DecodeRune_def utf8_first_unat utf8_info mask_ascii)

lemma DecodeRune_bad_head:
  "0x80 \<le> unat p0 \<Longrightarrow> unat p0 \<le> 0xC1 \<or> 0xF5 \<le> unat p0 \<Longrightarrow>
   DecodeRune (p0 # rest) = (RuneError, 1)"
  by (auto simp add: DecodeRune_def utf8_first_unat utf8_info mask_ascii)

lemma DecodeRune_2:
  assumes "0xC2 \<le> unat p0" "unat p0 \<le> 0xDF"
  shows "DecodeRune (p0 # b1 # rest) =
    (if is_cont b1 then (push_bit 6 (ucast (p0 AND mask2)) OR ucast (b1 AND maskx), 2) else (RuneError, 1))"
  using assms
  by (simp add: DecodeRune_def utf8_first_unat utf8_info is_cont_def word_less_nat_alt not_less not_le)

lemma DecodeRune_3:
  assumes "0xE0 \<le> unat p0" "unat p0 \<le> 0xEF"
  shows "DecodeRune (p0 # b1 # b2 # rest) =
    (if second_lo (unat p0) \<le> unat b1 \<and> unat b1 \<le> second_hi (unat p0) \<and> is_cont b2
     then (push_bit 12 (ucast (p0 AND mask3)) OR push_bit 6 (ucast (b1 AND maskx))
                   OR ucast (b2 AND maskx), 3) else (RuneError, 1))"
  using assms
  by (simp add: DecodeRune_def utf8_first_unat utf8_info is_cont_def second_lo_def second_hi_def locb_def hicb_def word_less_nat_alt not_less not_le)

lemma DecodeRune_4:
  assumes "0xF0 \<le> unat p0" "unat p0 \<le> 0xF4"
  shows "DecodeRune (p0 # b1 # b2 # b3 # rest) =
    (if second_lo (unat p0) \<le> unat b1 \<and> unat b1 \<le> second_hi (unat p0) \<and> is_cont b2 \<and> is_cont b3
     then (push_bit 18 (ucast (p0 AND mask4)) OR push_bit 12 (ucast (b1 AND maskx))
                     OR push_bit 6 (ucast (b2 AND maskx)) OR ucast (b3 AND maskx), 4) else (RuneError, 1))"
  using assms
  by (simp add: DecodeRune_def utf8_first_unat utf8_info is_cont_def second_lo_def second_hi_def locb_def hicb_def word_less_nat_alt not_less not_le)

lemma DecodeRune_short:
  assumes "0xC2 \<le> unat p0" "unat p0 \<le> 0xF4"
    and "Suc (length rest) < (if unat p0 \<le> 0xDF then 2 else if unat p0 \<le> 0xEF then 3 else 4)"
  shows "DecodeRune (p0 # rest) = (RuneError, 1)"
  using assms
  by (simp add: DecodeRune_def utf8_first_unat utf8_info split: if_splits)

subsection \<open>\<^verbatim>\<open>DecodeRune\<close> decodes UTF-8\<close>

lemma mod_small:
  "x < 32 \<Longrightarrow> (192 + x) mod 32 = (x::nat)"
  "x < 16 \<Longrightarrow> (224 + x) mod 16 = (x::nat)"
  "x < 8 \<Longrightarrow> (240 + x) mod 8 = (x::nat)"
  "x < 64 \<Longrightarrow> (128 + x) mod 64 = (x::nat)"
  using mod_mult_self2 [of x 32 6] mod_mult_self2 [of x 16 14]
    mod_mult_self2 [of x 8 30] mod_mult_self2 [of x 64 2]
  by (simp_all add: add.commute)

lemma digits2:
  fixes x y :: nat assumes "y < 64"
  shows "(x * 64 + y) div 64 = x" "(x * 64 + y) mod 64 = y"
  using assms by simp_all

lemma digits3:
  fixes x y z :: nat assumes "y < 64" "z < 64"
  shows "(x * 4096 + y * 64 + z) div 4096 = x"
    "(x * 4096 + y * 64 + z) div 64 mod 64 = y"
    "(x * 4096 + y * 64 + z) mod 64 = z"
proof -
  have e: "x * 4096 + y * 64 + z = (x * 64 + y) * 64 + z" by simp
  from assms have "((x * 64 + y) * 64 + z) div 64 mod 64 = y"
    by (simp only: digits2)
  then show "(x * 4096 + y * 64 + z) div 64 mod 64 = y"
    by (simp only: e)
  from assms have "((x * 64 + y) * 64 + z) mod 64 = z"
    by (simp only: digits2)
  then show "(x * 4096 + y * 64 + z) mod 64 = z"
    by (simp only: e)
  from assms have "y * 64 + z < 4096" by simp
  then show "(x * 4096 + y * 64 + z) div 4096 = x"
    by (simp add: add.assoc)
qed

lemma digits4:
  fixes x y z w :: nat assumes "y < 64" "z < 64" "w < 64"
  shows "(x * 262144 + y * 4096 + z * 64 + w) div 262144 = x"
    "(x * 262144 + y * 4096 + z * 64 + w) div 4096 mod 64 = y"
    "(x * 262144 + y * 4096 + z * 64 + w) div 64 mod 64 = z"
    "(x * 262144 + y * 4096 + z * 64 + w) mod 64 = w"
proof -
  have e: "x * 262144 + y * 4096 + z * 64 + w = ((x * 64 + y) * 64 + z) * 64 + w" by simp
  have f: "x * 262144 + y * 4096 + z * 64 + w = (x * 64 + y) * 4096 + (z * 64 + w)" by simp
  from assms have "(((x * 64 + y) * 64 + z) * 64 + w) div 64 mod 64 = z"
    by (simp only: digits2)
  then show "(x * 262144 + y * 4096 + z * 64 + w) div 64 mod 64 = z"
    by (simp only: e)
  from assms have "(((x * 64 + y) * 64 + z) * 64 + w) mod 64 = w"
    by (simp only: digits2)
  then show "(x * 262144 + y * 4096 + z * 64 + w) mod 64 = w"
    by (simp only: e)
  from assms have zw: "z * 64 + w < 4096" by simp
  then have "((x * 64 + y) * 4096 + (z * 64 + w)) div 4096 = x * 64 + y"
    by simp
  with assms have "((x * 64 + y) * 4096 + (z * 64 + w)) div 4096 mod 64 = y"
    by (simp only: digits2)
  then show "(x * 262144 + y * 4096 + z * 64 + w) div 4096 mod 64 = y"
    by (simp only: f)
  from assms have "y * 4096 + z * 64 + w < 262144" by simp
  then show "(x * 262144 + y * 4096 + z * 64 + w) div 262144 = x"
    by (simp add: add.assoc)
qed

lemma decomp:
  fixes c :: nat
  shows "c = c div 4096 * 4096 + c div 64 mod 64 * 64 + c mod 64"
    "c = c div 262144 * 262144 + c div 4096 mod 64 * 4096 + c div 64 mod 64 * 64 + c mod 64"
proof -
  have a: "c div 4096 = c div 64 div 64" by (simp add: div_mult2_eq [symmetric])
  have b: "c div 262144 = c div 64 div 64 div 64" by (simp add: div_mult2_eq [symmetric])
  define q1 where "q1 = c div 64"
  define q2 where "q2 = q1 div 64"
  define q3 where "q3 = q2 div 64"
  have 1: "c = q1 * 64 + c mod 64" by (simp add: q1_def)
  have 2: "q1 = q2 * 64 + q1 mod 64" by (simp add: q2_def)
  have 3: "q2 = q3 * 64 + q2 mod 64" by (simp add: q3_def)
  show "c = c div 4096 * 4096 + c div 64 mod 64 * 64 + c mod 64"
    unfolding a using 1 2 unfolding q1_def [symmetric] q2_def [symmetric] by linarith
  show "c = c div 262144 * 262144 + c div 4096 mod 64 * 4096 + c div 64 mod 64 * 64 + c mod 64"
    unfolding a b using 1 2 3 unfolding q1_def [symmetric] q2_def [symmetric] q3_def [symmetric] by linarith
qed

lemma unat_of_nat_byte: "n < 256 \<Longrightarrow> unat (of_nat n :: byte) = n"
  by (simp add: unat_of_nat)

lemma dec2:
  assumes "unat p0 = 0xC0 + x" "unat b1 = 0x80 + y" "2 \<le> x" "x < 32" "y < 64"
  shows "\<exists>r. DecodeRune (p0 # b1 # rest) = (r, 2) \<and> unat r = x * 64 + y"
  using assms
  by (simp add: DecodeRune_2 is_cont_def unat_rune2 mod_small)

lemma dec3:
  assumes "unat p0 = 0xE0 + x" "unat b1 = 0x80 + y" "unat b2 = 0x80 + z"
    and "x < 16" "y < 64" "z < 64" "x = 0 \<longrightarrow> 32 \<le> y" "x = 13 \<longrightarrow> y < 32"
  shows "\<exists>r. DecodeRune (p0 # b1 # b2 # rest) = (r, 3) \<and> unat r = x * 4096 + y * 64 + z"
  using assms
  by (auto simp add: DecodeRune_3 is_cont_def second_lo_def second_hi_def unat_rune3 mod_small)

lemma dec4:
  assumes "unat p0 = 0xF0 + x" "unat b1 = 0x80 + y" "unat b2 = 0x80 + z" "unat b3 = 0x80 + w"
    and "x \<le> 4" "y < 64" "z < 64" "w < 64" "x = 0 \<longrightarrow> 16 \<le> y" "x = 4 \<longrightarrow> y < 16"
  shows "\<exists>r. DecodeRune (p0 # b1 # b2 # b3 # rest) = (r, 4) \<and>
    unat r = x * 262144 + y * 4096 + z * 64 + w"
  using assms
  by (auto simp add: DecodeRune_4 is_cont_def second_lo_def second_hi_def unat_rune4 mod_small)


lemma rune_of_unat: "unat (r::rune) = c \<Longrightarrow> r = of_nat c"
  by auto

lemma DecodeRune_encoding1:
  assumes "c < 0x80"
  shows "DecodeRune (utf8_encoding c @ rest) = (of_nat c, length (utf8_encoding c))"
proof -
  define p0 :: byte where "p0 = of_nat c"
  from assms have u: "unat p0 = c"
    unfolding p0_def by (simp add: unat_of_nat_byte)
  with assms have "DecodeRune (p0 # rest) = (ucast p0, 1)"
    by (simp add: DecodeRune_ascii)
  moreover from u have "(ucast p0 :: rune) = of_nat c"
    by (simp add: rune_of_unat unat_ucast_byte_rune)
  moreover from assms have "utf8_encoding c = [p0]"
    by (simp add: utf8_encoding_def p0_def)
  ultimately show ?thesis by simp
qed

lemma DecodeRune_encoding2:
  assumes "0x80 \<le> c" "c < 0x800"
  shows "DecodeRune (utf8_encoding c @ rest) = (of_nat c, length (utf8_encoding c))"
proof -
  define x y where "x = c div 64" and "y = c mod 64"
  define p0 b1 :: byte where "p0 = of_nat (0xC0 + x)" and "b1 = of_nat (0x80 + y)"
  have c: "c = x * 64 + y" by (simp add: x_def y_def)
  have y: "y < 64" by (simp add: y_def)
  from assms c y have x: "2 \<le> x" "x < 32" by linarith+
  from x have u0: "unat p0 = 0xC0 + x"
    unfolding p0_def by (intro unat_of_nat_byte) simp
  from y have u1: "unat b1 = 0x80 + y"
    unfolding b1_def by (intro unat_of_nat_byte) simp
  from dec2 [OF u0 u1 x y] obtain r where
    r: "DecodeRune (p0 # b1 # rest) = (r, 2)" "unat r = x * 64 + y" by blast
  from r(2) c have "unat r = c" by simp
  then have "r = of_nat c" by (rule rune_of_unat)
  moreover from assms have "utf8_encoding c = [p0, b1]"
    by (simp add: utf8_encoding_def p0_def b1_def x_def y_def)
  ultimately show ?thesis using r(1) by simp
qed

lemma DecodeRune_encoding3:
  assumes "0x800 \<le> c" "c < 0x10000" "scalar_value c"
  shows "DecodeRune (utf8_encoding c @ rest) = (of_nat c, length (utf8_encoding c))"
proof -
  define x y z where "x = c div 4096" and "y = c div 64 mod 64" and "z = c mod 64"
  define p0 b1 b2 :: byte where "p0 = of_nat (0xE0 + x)" and "b1 = of_nat (0x80 + y)"
    and "b2 = of_nat (0x80 + z)"
  have c: "c = x * 4096 + y * 64 + z"
    unfolding x_def y_def z_def by (rule decomp)
  have y: "y < 64" and z: "z < 64" by (simp_all add: y_def z_def)
  from assms(2) c y z have x: "x < 16" by linarith
  from assms(1) c y z have x0: "x = 0 \<longrightarrow> 32 \<le> y" by auto
  from assms(3) c y z have x13: "x = 13 \<longrightarrow> y < 32"
    unfolding scalar_value_def by auto
  from x have u0: "unat p0 = 0xE0 + x"
    unfolding p0_def by (intro unat_of_nat_byte) simp
  from y have u1: "unat b1 = 0x80 + y"
    unfolding b1_def by (intro unat_of_nat_byte) simp
  from z have u2: "unat b2 = 0x80 + z"
    unfolding b2_def by (intro unat_of_nat_byte) simp
  from dec3 [OF u0 u1 u2 x y z x0 x13] obtain r where
    r: "DecodeRune (p0 # b1 # b2 # rest) = (r, 3)" "unat r = x * 4096 + y * 64 + z" by blast
  from r(2) c have "unat r = c" by simp
  then have "r = of_nat c" by (rule rune_of_unat)
  moreover from assms have "utf8_encoding c = [p0, b1, b2]"
    by (simp add: utf8_encoding_def p0_def b1_def b2_def x_def y_def z_def)
  ultimately show ?thesis using r(1) by simp
qed

lemma DecodeRune_encoding4:
  assumes "0x10000 \<le> c" "c \<le> 0x10FFFF"
  shows "DecodeRune (utf8_encoding c @ rest) = (of_nat c, length (utf8_encoding c))"
proof -
  define x y z w where "x = c div 262144" and "y = c div 4096 mod 64"
    and "z = c div 64 mod 64" and "w = c mod 64"
  define p0 b1 b2 b3 :: byte where "p0 = of_nat (0xF0 + x)" and "b1 = of_nat (0x80 + y)"
    and "b2 = of_nat (0x80 + z)" and "b3 = of_nat (0x80 + w)"
  have c: "c = x * 262144 + y * 4096 + z * 64 + w"
    unfolding x_def y_def z_def w_def by (rule decomp)
  have y: "y < 64" and z: "z < 64" and w: "w < 64" by (simp_all add: y_def z_def w_def)
  from assms(2) c y z w have x: "x \<le> 4" by linarith
  from assms(1) c y z w have x0: "x = 0 \<longrightarrow> 16 \<le> y" by auto
  from assms(2) c y z w have x4: "x = 4 \<longrightarrow> y < 16" by auto
  from x have u0: "unat p0 = 0xF0 + x"
    unfolding p0_def by (intro unat_of_nat_byte) simp
  from y have u1: "unat b1 = 0x80 + y"
    unfolding b1_def by (intro unat_of_nat_byte) simp
  from z have u2: "unat b2 = 0x80 + z"
    unfolding b2_def by (intro unat_of_nat_byte) simp
  from w have u3: "unat b3 = 0x80 + w"
    unfolding b3_def by (intro unat_of_nat_byte) simp
  from dec4 [OF u0 u1 u2 u3 x y z w x0 x4] obtain r where
    r: "DecodeRune (p0 # b1 # b2 # b3 # rest) = (r, 4)"
      "unat r = x * 262144 + y * 4096 + z * 64 + w" by blast
  from r(2) c have "unat r = c" by simp
  then have "r = of_nat c" by (rule rune_of_unat)
  moreover from assms have "utf8_encoding c = [p0, b1, b2, b3]"
    by (simp add: utf8_encoding_def p0_def b1_def b2_def b3_def x_def y_def z_def w_def)
  ultimately show ?thesis using r(1) by simp
qed

lemma DecodeRune_utf8_encoding:
  assumes "scalar_value c"
  shows "DecodeRune (utf8_encoding c @ rest) = (of_nat c, length (utf8_encoding c))"
proof -
  from assms consider "c < 0x80" | "0x80 \<le> c" "c < 0x800" | "0x800 \<le> c" "c < 0x10000"
    | "0x10000 \<le> c" "c \<le> 0x10FFFF"
    unfolding scalar_value_def by linarith
  then show ?thesis
    using assms
    by cases (simp_all only: DecodeRune_encoding1 DecodeRune_encoding2 DecodeRune_encoding3
      DecodeRune_encoding4)
qed


lemma byte_of_unat: "n = unat (b::byte) \<Longrightarrow> of_nat n = b"
  by simp

lemma DecodeRune_sound1:
  assumes "unat p0 \<le> 0x7F" and "DecodeRune (p0 # rest) = (r, n)"
  shows "scalar_value (unat r) \<and> n = length (utf8_encoding (unat r))
    \<and> prefix (utf8_encoding (unat r)) (p0 # rest)"
proof -
  from assms have r: "r = ucast p0" "n = 1"
    by (simp_all add: DecodeRune_ascii)
  then have u: "unat r = unat p0"
    by (simp add: unat_ucast_byte_rune)
  with assms(1) have "utf8_encoding (unat r) = [p0]"
    by (simp add: utf8_encoding_def)
  with u r assms(1) show ?thesis
    by (simp add: scalar_value_def)
qed

lemma DecodeRune_sound2:
  assumes "0xC2 \<le> unat p0" "unat p0 \<le> 0xDF" and "DecodeRune (p0 # rest) = (r, n)"
    and "(r, n) \<noteq> (RuneError, 1)"
  shows "scalar_value (unat r) \<and> n = length (utf8_encoding (unat r))
    \<and> prefix (utf8_encoding (unat r)) (p0 # rest)"
proof (cases rest)
  case Nil
  with assms show ?thesis
    using DecodeRune_short [of p0 rest] by simp
next
  case (Cons b1 rest')
  with assms have cont: "is_cont b1"
    by (simp add: DecodeRune_2 split: if_splits)
  define x y where "x = unat p0 - 0xC0" and "y = unat b1 - 0x80"
  from assms(1,2) have u0: "unat p0 = 0xC0 + x" and x: "2 \<le> x" "x < 32"
    by (auto simp add: x_def)
  from cont have u1: "unat b1 = 0x80 + y" and y: "y < 64"
    by (auto simp add: y_def is_cont_def)
  from dec2 [OF u0 u1 x y, of rest'] assms(3) Cons
  have n: "n = 2" and r: "unat r = x * 64 + y" by auto
  let ?c = "x * 64 + y"
  from x y have range: "0x80 \<le> ?c" "?c < 0x800" by simp_all
  have e0: "of_nat (0xC0 + ?c div 64) = p0"
    by (rule byte_of_unat) (simp add: u0 digits2 y)
  have e1: "of_nat (0x80 + ?c mod 64) = b1"
    by (rule byte_of_unat) (simp add: u1 digits2 y)
  from range have "utf8_encoding ?c = [of_nat (0xC0 + ?c div 64), of_nat (0x80 + ?c mod 64)]"
    by (simp add: utf8_encoding_def)
  then have "utf8_encoding ?c = [p0, b1]"
    by (simp only: e0 e1)
  with range n r Cons show ?thesis
    by (simp add: scalar_value_def)
qed


lemma DecodeRune_sound3:
  assumes "0xE0 \<le> unat p0" "unat p0 \<le> 0xEF" and "DecodeRune (p0 # rest) = (r, n)"
    and "(r, n) \<noteq> (RuneError, 1)"
  shows "scalar_value (unat r) \<and> n = length (utf8_encoding (unat r))
    \<and> prefix (utf8_encoding (unat r)) (p0 # rest)"
proof -
  have "\<not> length rest < 2"
  proof
    assume "length rest < 2"
    with assms(1,2) have "DecodeRune (p0 # rest) = (RuneError, 1)"
      by (intro DecodeRune_short) simp_all
    with assms(3,4) show False by simp
  qed
  then obtain b1 b2 rest' where rest: "rest = b1 # b2 # rest'"
    by (cases rest; cases "tl rest") auto
  with assms have ok: "second_lo (unat p0) \<le> unat b1" "unat b1 \<le> second_hi (unat p0)"
      "is_cont b2"
    by (simp_all add: DecodeRune_3 split: if_splits)
  define x y z where "x = unat p0 - 0xE0" and "y = unat b1 - 0x80" and "z = unat b2 - 0x80"
  from assms(1,2) have u0: "unat p0 = 0xE0 + x" and x: "x < 16"
    by (auto simp add: x_def)
  from ok(1,2) have u1: "unat b1 = 0x80 + y" and y: "y < 64"
    by (auto simp add: y_def second_lo_def second_hi_def split: if_splits)
  from ok(3) have u2: "unat b2 = 0x80 + z" and z: "z < 64"
    by (auto simp add: z_def is_cont_def)
  from ok(1) u0 u1 have x0: "x = 0 \<longrightarrow> 32 \<le> y"
    by (auto simp add: second_lo_def)
  from ok(2) u0 u1 have x13: "x = 13 \<longrightarrow> y < 32"
    by (auto simp add: second_hi_def)
  from dec3 [OF u0 u1 u2 x y z x0 x13, of rest'] assms(3) rest
  have n: "n = 3" and r: "unat r = x * 4096 + y * 64 + z" by auto
  let ?c = "x * 4096 + y * 64 + z"
  from x y z x0 have range: "0x800 \<le> ?c" "?c < 0x10000" by auto
  from x y z x13 have scalar: "scalar_value ?c"
    unfolding scalar_value_def by (cases "x < 13"; cases "x = 13") auto
  have e0: "of_nat (0xE0 + ?c div 4096) = p0"
    by (rule byte_of_unat) (simp only: u0 digits3 y z)
  have e1: "of_nat (0x80 + ?c div 64 mod 64) = b1"
    by (rule byte_of_unat) (simp only: u1 digits3 y z)
  have e2: "of_nat (0x80 + ?c mod 64) = b2"
    by (rule byte_of_unat) (simp only: u2 digits3 y z)
  from range have "utf8_encoding ?c =
      [of_nat (0xE0 + ?c div 4096), of_nat (0x80 + ?c div 64 mod 64), of_nat (0x80 + ?c mod 64)]"
    unfolding utf8_encoding_def by simp
  then have "utf8_encoding ?c = [p0, b1, b2]"
    by (simp only: e0 e1 e2)
  with scalar n r rest show ?thesis
    by simp
qed

lemma DecodeRune_sound4:
  assumes "0xF0 \<le> unat p0" "unat p0 \<le> 0xF4" and "DecodeRune (p0 # rest) = (r, n)"
    and "(r, n) \<noteq> (RuneError, 1)"
  shows "scalar_value (unat r) \<and> n = length (utf8_encoding (unat r))
    \<and> prefix (utf8_encoding (unat r)) (p0 # rest)"
proof -
  have "\<not> length rest < 3"
  proof
    assume "length rest < 3"
    with assms(1,2) have "DecodeRune (p0 # rest) = (RuneError, 1)"
      by (intro DecodeRune_short) simp_all
    with assms(3,4) show False by simp
  qed
  then obtain b1 b2 b3 rest' where rest: "rest = b1 # b2 # b3 # rest'"
    by (cases rest; cases "tl rest"; cases "tl (tl rest)") auto
  with assms have ok: "second_lo (unat p0) \<le> unat b1" "unat b1 \<le> second_hi (unat p0)"
      "is_cont b2" "is_cont b3"
    by (simp_all add: DecodeRune_4 split: if_splits)
  define x y z w where "x = unat p0 - 0xF0" and "y = unat b1 - 0x80"
    and "z = unat b2 - 0x80" and "w = unat b3 - 0x80"
  from assms(1,2) have u0: "unat p0 = 0xF0 + x" and x: "x \<le> 4"
    by (auto simp add: x_def)
  from ok(1,2) have u1: "unat b1 = 0x80 + y" and y: "y < 64"
    by (auto simp add: y_def second_lo_def second_hi_def split: if_splits)
  from ok(3) have u2: "unat b2 = 0x80 + z" and z: "z < 64"
    by (auto simp add: z_def is_cont_def)
  from ok(4) have u3: "unat b3 = 0x80 + w" and w: "w < 64"
    by (auto simp add: w_def is_cont_def)
  from ok(1) u0 u1 have x0: "x = 0 \<longrightarrow> 16 \<le> y"
    by (auto simp add: second_lo_def)
  from ok(2) u0 u1 have x4: "x = 4 \<longrightarrow> y < 16"
    by (auto simp add: second_hi_def)
  from dec4 [OF u0 u1 u2 u3 x y z w x0 x4, of rest'] assms(3) rest
  have n: "n = 4" and r: "unat r = x * 262144 + y * 4096 + z * 64 + w" by auto
  let ?c = "x * 262144 + y * 4096 + z * 64 + w"
  from x y z w x0 x4 have range: "0x10000 \<le> ?c" "?c \<le> 0x10FFFF"
    by (cases "x = 4"; auto)+
  then have scalar: "scalar_value ?c"
    unfolding scalar_value_def by simp
  have e0: "of_nat (0xF0 + ?c div 262144) = p0"
    by (rule byte_of_unat) (simp only: u0 digits4 y z w)
  have e1: "of_nat (0x80 + ?c div 4096 mod 64) = b1"
    by (rule byte_of_unat) (simp only: u1 digits4 y z w)
  have e2: "of_nat (0x80 + ?c div 64 mod 64) = b2"
    by (rule byte_of_unat) (simp only: u2 digits4 y z w)
  have e3: "of_nat (0x80 + ?c mod 64) = b3"
    by (rule byte_of_unat) (simp only: u3 digits4 y z w)
  from range have "utf8_encoding ?c =
      [of_nat (0xF0 + ?c div 262144), of_nat (0x80 + ?c div 4096 mod 64),
       of_nat (0x80 + ?c div 64 mod 64), of_nat (0x80 + ?c mod 64)]"
    unfolding utf8_encoding_def by simp
  then have "utf8_encoding ?c = [p0, b1, b2, b3]"
    by (simp only: e0 e1 e2 e3)
  with scalar n r rest show ?thesis
    by simp
qed

lemma DecodeRune_sound:
  assumes "DecodeRune p = (r, n)" and "p \<noteq> []" and "(r, n) \<noteq> (RuneError, 1)"
  shows "scalar_value (unat r) \<and> n = length (utf8_encoding (unat r))
    \<and> prefix (utf8_encoding (unat r)) p"
proof -
  from assms(2) obtain p0 rest where p: "p = p0 # rest"
    by (cases p) auto
  consider "unat p0 \<le> 0x7F" | "0x80 \<le> unat p0" "unat p0 \<le> 0xC1 \<or> 0xF5 \<le> unat p0"
    | "0xC2 \<le> unat p0" "unat p0 \<le> 0xDF" | "0xE0 \<le> unat p0" "unat p0 \<le> 0xEF"
    | "0xF0 \<le> unat p0" "unat p0 \<le> 0xF4"
    by linarith
  then show ?thesis
  proof cases
    case 1
    with assms(1) p show ?thesis using DecodeRune_sound1 [of p0 rest r n] by simp
  next
    case 2
    with assms(1,3) p show ?thesis by (simp add: DecodeRune_bad_head)
  next
    case 3
    with assms(1,3) p show ?thesis using DecodeRune_sound2 [of p0 rest r n] by simp
  next
    case 4
    with assms(1,3) p show ?thesis using DecodeRune_sound3 [of p0 rest r n] by simp
  next
    case 5
    with assms(1,3) p show ?thesis using DecodeRune_sound4 [of p0 rest r n] by simp
  qed
qed

subsection \<open>The events of the decoder and of the goroutine\<close>

lemma parse_escape_sequence_from_event:
  "snd (parse_escape_sequence_from i ks buf) = keyEvent_zero \<or>
   (\<exists>k. snd (parse_escape_sequence_from i ks buf) = keyEvent_key k)"
  by (induction ks arbitrary: i) (auto simp: keyEvent_zero_def keyEvent_key_def)

lemma extract_event_cases:
  "extract_event keys buf = (0, []) \<or>
   (\<exists>k n. extract_event keys buf = (n, [keyEvent_key k]) \<and> 0 < n) \<or>
   (\<exists>r n. extract_event keys buf = (n, [keyEvent_rune r]) \<and> 0 < n \<and> r \<noteq> RuneError \<and> r \<noteq> 0)"
proof (cases buf)
  case Nil
  then show ?thesis by (simp add: extract_event_def)
next
  case (Cons b bs)
  consider (esc) "b = 0x1B" | (ctl) "b \<noteq> 0x1B" "b \<le> 0x20 \<or> b = 0x7F"
    | (chr) "b \<noteq> 0x1B" "\<not> (b \<le> 0x20 \<or> b = 0x7F)"
    by blast
  then show ?thesis
  proof cases
    case esc
    obtain sz ev where pe: "parse_escape_sequence keys buf = (sz, ev)"
      by (cases "parse_escape_sequence keys buf")
    with parse_escape_sequence_from_event [of 0 keys buf]
    have "ev = keyEvent_zero \<or> (\<exists>k. ev = keyEvent_key k)"
      by (simp add: parse_escape_sequence_def)
    then have "\<exists>k. ev = keyEvent_key k"
      by (auto simp: keyEvent_zero_def keyEvent_key_def)
    with esc Cons pe show ?thesis
      by (auto simp: extract_event_def)
  next
    case ctl
    with Cons show ?thesis
      by (auto simp: extract_event_control)
  next
    case chr
    obtain r n where d: "DecodeRune buf = (r, n)"
      by (cases "DecodeRune buf")
    show ?thesis
    proof (cases "r = RuneError")
      case True
      with chr Cons d show ?thesis
        by (simp add: extract_event_def ucast_byte_le_KeySpace ucast_byte_eq_KeyBackspace2)
    next
      case False
      with d Cons DecodeRune_sound [of buf r n]
      have pre: "prefix (utf8_encoding (unat r)) buf" by simp
      have "r \<noteq> 0"
      proof
        assume "r = 0"
        with pre Cons have "b = 0" by (simp add: utf8_encoding_def)
        with chr show False by simp
      qed
      moreover from d Cons DecodeRune_size_pos [of buf] have "0 < n" by simp
      ultimately show ?thesis
        using False chr Cons d
        by (auto simp add: extract_event_def ucast_byte_le_KeySpace ucast_byte_eq_KeyBackspace2)
    qed
  qed
qed

lemma producer_loop_invariant:
  assumes "\<And>buf. list_all P (snd (extract_event keys buf))" and "\<And>e. P (keyEvent_err e)"
  shows "list_all P (input_comm s) \<Longrightarrow>
    list_all P (outcome_events (producer_loop keys s msgs)) \<and> producer_loop keys s msgs \<noteq> Panicked"
proof (induction msgs arbitrary: s)
  case Nil
  then show ?case by simp
next
  case (Cons m msgs)
  show ?case
  proof (cases m)
    case Quit
    with Cons.prems show ?thesis by simp
  next
    case (Input ev)
    show ?thesis
    proof (cases "input_event.err ev")
      case None
      let ?s' = "s\<lparr>input_comm := input_comm s @ snd (extract_event keys (inbuf s @ data ev)),
        inbuf := drop (fst (extract_event keys (inbuf s @ data ev))) (inbuf s @ data ev)\<rparr>"
      from Cons.prems assms(1) have "list_all P (input_comm ?s')" by simp
      from Cons.IH [OF this] None Input show ?thesis
        by (simp add: extract_and_shift_eq)
    next
      case (Some e)
      with Cons.prems assms(2) Input show ?thesis by simp
    qed
  qed
qed

lemma inputEventsProducer_invariant:
  assumes "\<And>buf. list_all P (snd (extract_event keys buf))" and "\<And>e. P (keyEvent_err e)"
    and "list_all P (input_comm s)"
  shows "list_all P (outcome_events (inputEventsProducer keys s msgs))
    \<and> inputEventsProducer keys s msgs \<noteq> Panicked"
proof -
  let ?s' = "s\<lparr>input_comm := input_comm s @ snd (extract_event keys (inbuf s)),
    inbuf := drop (fst (extract_event keys (inbuf s))) (inbuf s)\<rparr>"
  from assms(1,3) have "list_all P (input_comm ?s')" by simp
  from producer_loop_invariant [of P keys, OF assms(1,2) this] show ?thesis
    by (simp add: inputEventsProducer_def extract_and_shift_eq)
qed

lemma one_variant_events:
  "one_variant (keyEvent_key k)" "r \<noteq> 0 \<Longrightarrow> one_variant (keyEvent_rune r)"
  "one_variant (keyEvent_err e)"
  by (simp_all add: one_variant_def is_symbolic_key_event_def is_character_event_def
      is_failure_event_def keyEvent_key_def keyEvent_rune_def keyEvent_err_def)

lemma extract_event_one_variant: "list_all one_variant (snd (extract_event keys buf))"
  using extract_event_cases [of keys buf] by (auto simp: one_variant_events)

lemma extract_event_not_RuneError:
  "list_all (\<lambda>e. keyEvent.rune e \<noteq> 0xFFFD) (snd (extract_event keys buf))"
  using extract_event_cases [of keys buf]
  by (auto simp: keyEvent_key_def keyEvent_rune_def RuneError_def)

section \<open>Control bytes\<close>

text \<open>
  Claim C4. For every non-empty buffer whose first byte is not 0x1B and is at most
  0x20 (Space) or equal to 0x7F, \<^verbatim>\<open>extract_event\<close> sends exactly one event, whose key
  has the value of that byte and whose rune and error are unset, and returns the
  size 1.
\<close>

theorem control_byte_extraction:
  assumes "buf \<noteq> []" and "hd buf \<noteq> 0x1B" and "hd buf \<le> 0x20 \<or> hd buf = 0x7F"
  shows "extract_event keys buf = (1, [\<lparr>key = ucast (hd buf), rune = 0, err = None\<rparr>])
    \<and> unat (ucast (hd buf) :: Key) = unat (hd buf)"
proof -
  from assms(1) obtain b bs where buf: "buf = b # bs"
    by (cases buf) auto
  with assms(2,3) have "extract_event keys buf = (1, [keyEvent_key (ucast b)])"
    by (simp add: extract_event_control)
  with buf show ?thesis
    by (simp add: keyEvent_key_def unat_ucast_byte_Key)
qed

text \<open>The byte 0x03 alone gives exactly one Ctrl-C event and the size 1.\<close>

theorem control_byte_extraction_witness:
  "extract_event [] [0x03] = (1, [\<lparr>key = KeyCtrlC, rune = 0, err = None\<rparr>])"
  using control_byte_extraction [of "[0x03]" "[]"] by (simp add: KeyCtrlC_def)

section \<open>Front truncation\<close>

text \<open>
  Claim C7. Whenever \<^verbatim>\<open>extract_event\<close> returns a positive size \<open>n\<close> for the current
  buffer, the copy and the reslice that follow in \<^verbatim>\<open>inputEventsProducer\<close> do not
  panic and leave in the buffer exactly the old bytes from position \<open>n\<close> on, in their
  order: the first \<open>n\<close> bytes are gone and no other byte is changed.
\<close>

theorem front_truncation:
  assumes "extract_event keys (inbuf s) = (n, sent)" and "0 < n"
  shows "\<exists>s'. extract_and_shift keys s = Some s'
    \<and> inbuf s' = drop n (inbuf s)
    \<and> inbuf s = take n (inbuf s) @ inbuf s'
    \<and> length (inbuf s') = length (inbuf s) - n
    \<and> n \<le> length (inbuf s)
    \<and> (\<forall>i < length (inbuf s'). inbuf s' ! i = inbuf s ! (n + i))
    \<and> input_comm s' = input_comm s @ sent"
  using assms extract_event_size [of keys "inbuf s"]
  by (simp add: extract_and_shift_eq)

theorem front_truncation_witness:
  "\<exists>s'. extract_and_shift [] \<lparr>inbuf = [0x61, 0x62, 0x63], input_comm = []\<rparr> = Some s'
     \<and> inbuf s' = [0x62, 0x63]"
proof -
  have e: "extract_event [] (inbuf \<lparr>inbuf = [0x61, 0x62, 0x63], input_comm = []\<rparr>)
      = (1, [keyEvent_rune 0x61])"
    by code_simp
  show ?thesis
    using front_truncation [OF e] by auto
qed

section \<open>Errors end the goroutine\<close>

text \<open>
  Claim C8. When the goroutine, waiting in its \<^verbatim>\<open>select\<close>, receives an input event
  with a non-nil error, it sends exactly one event \<^verbatim>\<open>keyEvent{err: ev.err}\<close> and
  returns: whatever arrives later on the channels, nothing more is sent and the buffer
  stays as it was.
\<close>

theorem error_termination:
  assumes "inputEventsProducer keys s msgs = Waiting s1" and "input_event.err ev = Some e"
  shows "inputEventsProducer keys s (msgs @ Input ev # later) =
    Returned (s1\<lparr>input_comm := input_comm s1 @ [\<lparr>key = 0, rune = 0, err = Some e\<rparr>]\<rparr>)"
  using assms by (simp add: inputEventsProducer_append keyEvent_err_def)

theorem error_termination_witness:
  "inputEventsProducer [] assembler_init
     ([chunk [0x61]] @ Input \<lparr>data = [0x62], err = Some ''EOF''\<rparr> # [chunk [0x63]]) =
   Returned \<lparr>inbuf = [],
     input_comm = [keyEvent_rune 0x61, \<lparr>key = 0, rune = 0, err = Some ''EOF''\<rparr>]\<rparr>"
proof -
  have w: "inputEventsProducer [] assembler_init [chunk [0x61]] =
      Waiting \<lparr>inbuf = [], input_comm = [keyEvent_rune 0x61]\<rparr>"
    by code_simp
  have e: "input_event.err \<lparr>data = [0x62], err = Some ''EOF''\<rparr> = Some ''EOF''"
    by simp
  show ?thesis
    using error_termination [OF w e, of "[chunk [0x63]]"] by simp
qed

section \<open>Escape sequences\<close>

text \<open>
  Claim C3, as the code has it. For every buffer that begins with 0x1B and has a
  table entry as a prefix, \<^verbatim>\<open>parse_escape_sequence\<close> takes the first such entry in
  table order, which need not be the longest one. When that entry, at index \<open>i\<close>, is
  not empty, \<^verbatim>\<open>extract_event\<close> sends the one event with the key \<^verbatim>\<open>Key(0xFFFF - i)\<close>
  and returns the length of the entry.
\<close>

theorem escape_first_match:
  assumes "buf \<noteq> []" and "hd buf = 0x1B"
    and "i < length keys" and "prefix (keys ! i) buf"
    and "\<forall>j<i. \<not> prefix (keys ! j) buf" and "keys ! i \<noteq> []"
  shows "extract_event keys buf =
    (length (keys ! i), [\<lparr>key = word_of_int (0xFFFF - int i), rune = 0, err = None\<rparr>])"
proof -
  from assms(3-5) have "parse_escape_sequence keys buf =
      (length (keys ! i), keyEvent_key (word_of_int (0xFFFF - int i)))"
    using parse_escape_sequence_from_first [of i keys buf 0]
    by (simp add: parse_escape_sequence_def)
  with assms(1,2,6) show ?thesis
    by (cases buf) (simp_all add: extract_event_def keyEvent_key_def)
qed

theorem escape_first_match_witness:
  "extract_event sample_keys [0x1B, 0x5B, 0x41, 0x61] =
     (3, [\<lparr>key = KeyArrowUp, rune = 0, err = None\<rparr>])"
proof -
  let ?buf = "[0x1B, 0x5B, 0x41, 0x61] :: byte list"
  have len: "18 < length sample_keys"
    by (simp add: sample_keys_def)
  have "list_all (\<lambda>k. \<not> prefix k ?buf) (take 18 sample_keys)"
    by code_simp
  with len have none: "\<forall>j<18. \<not> prefix (sample_keys ! j) ?buf"
    by (simp add: list_all_length)
  have k: "sample_keys ! 18 = [0x1B, 0x5B, 0x41]"
    by (simp add: sample_keys_def)
  have "extract_event sample_keys ?buf =
    (length (sample_keys ! 18), [\<lparr>key = word_of_int (0xFFFF - int 18), rune = 0, err = None\<rparr>])"
    by (rule escape_first_match [OF _ _ len _ none]) (simp_all add: k)
  then show ?thesis
    by (simp add: k KeyArrowUp_def)
qed

text \<open>
  The longest entry is not always the one taken. With the table
  \<^verbatim>\<open>["\x1bO", "\x1bOA"]\<close> and the buffer \<^verbatim>\<open>"\x1bOA"\<close>, the longest entry that is a
  prefix of the buffer is entry 1, of length 3; the decoder takes entry 0, sends the
  key \<^verbatim>\<open>0xFFFF\<close> and returns the size 2.
\<close>

theorem escape_longest_match_counterexample:
  "spec_longest_match [[0x1B, 0x4F], [0x1B, 0x4F, 0x41]] [0x1B, 0x4F, 0x41]
     = Some (1, [0x1B, 0x4F, 0x41])
   \<and> extract_event [[0x1B, 0x4F], [0x1B, 0x4F, 0x41]] [0x1B, 0x4F, 0x41]
     = (2, [keyEvent_key KeyF1])
   \<and> extract_event [[0x1B, 0x4F], [0x1B, 0x4F, 0x41]] [0x1B, 0x4F, 0x41]
     \<noteq> (3, [keyEvent_key (KeyF1 - 1)])"
  by code_simp

section \<open>The Escape key alone\<close>

text \<open>
  Claim C2, as the code has it. When the buffer begins with 0x1B and no table entry is
  a prefix of it, \<^verbatim>\<open>extract_event\<close> sends the Esc key event and returns the size 1 at
  once, whatever the length of the buffer: it does not wait to see whether more bytes
  would complete an entry.
\<close>

theorem standalone_esc:
  assumes "buf \<noteq> []" and "hd buf = 0x1B" and "\<not> some_entry_matches keys buf"
  shows "extract_event keys buf = (1, [\<lparr>key = KeyEsc, rune = 0, err = None\<rparr>])"
proof -
  from assms(3) have "parse_escape_sequence keys buf = (0, keyEvent_zero)"
    by (simp add: parse_escape_sequence_def parse_escape_sequence_from_none
        some_entry_matches_iff)
  with assms(1,2) show ?thesis
    by (cases buf) (simp_all add: extract_event_def keyEvent_key_def)
qed

theorem standalone_esc_witness:
  "extract_event sample_keys [0x1B, 0x4F] = (1, [\<lparr>key = KeyEsc, rune = 0, err = None\<rparr>])"
proof -
  have "\<not> some_entry_matches sample_keys [0x1B, 0x4F]"
    by code_simp
  then show ?thesis
    using standalone_esc [of "[0x1B, 0x4F]" sample_keys] by simp
qed

text \<open>
  The buffer \<^verbatim>\<open>"\x1b["\<close> has no entry of the sample table as a prefix, and its
  extension \<^verbatim>\<open>"\x1b[A"\<close> is an entry: the buffer is not long enough to exclude a
  match. The decoder sends Esc and returns 1 all the same, where the claim has it
  send nothing and return 0.
\<close>

theorem standalone_esc_counterexample:
  "hd [0x1B, 0x5B] = (0x1B :: byte)
   \<and> \<not> some_entry_matches sample_keys [0x1B, 0x5B]
   \<and> extension_may_match sample_keys [0x1B, 0x5B]
   \<and> extract_event sample_keys [0x1B, 0x5B] = (1, [keyEvent_key KeyEsc])
   \<and> extract_event sample_keys [0x1B, 0x5B] \<noteq> (0, [])"
  by code_simp

section \<open>One extraction for each chunk\<close>

text \<open>
  Claim C6. The loop of \<^verbatim>\<open>inputEventsProducer\<close> calls \<^verbatim>\<open>extract_event\<close> once after
  it has appended a chunk, and then waits for the next chunk. Fed the one chunk
  \<^verbatim>\<open>"ab"\<close>, which holds two complete events, it sends the event for \<^verbatim>\<open>a\<close> only and
  waits with \<^verbatim>\<open>b\<close> in the buffer, although \<^verbatim>\<open>extract_event\<close> on that buffer gives
  the event for \<^verbatim>\<open>b\<close>.
\<close>

theorem one_extraction_per_chunk:
  "inputEventsProducer sample_keys assembler_init [chunk [0x61, 0x62]] =
     Waiting \<lparr>inbuf = [0x62], input_comm = [keyEvent_rune 0x61]\<rparr>
   \<and> extract_event sample_keys [0x62] = (1, [keyEvent_rune 0x62])"
  by code_simp

section \<open>Chunk boundaries\<close>

text \<open>
  Claim C1, as the code has it. A chunk boundary is transparent where the decoder
  extracts nothing from the bytes buffered so far: if, after the chunk \<open>c1\<close> is
  appended, \<^verbatim>\<open>extract_event\<close> returns 0, then no event is sent after \<open>c1\<close> alone, and
  delivering \<open>c1\<close> and then \<open>c2\<close> gives the same events and the same buffer as
  delivering their concatenation as one chunk, whatever is received later.
\<close>

theorem transparent_chunk_boundary:
  assumes "inputEventsProducer keys s msgs = Waiting s1"
    and "fst (extract_event keys (inbuf s1 @ c1)) = 0"
  shows "inputEventsProducer keys s (msgs @ chunk c1 # chunk c2 # later) =
      inputEventsProducer keys s (msgs @ chunk (c1 @ c2) # later)
    \<and> inputEventsProducer keys s (msgs @ [chunk c1]) = Waiting (s1\<lparr>inbuf := inbuf s1 @ c1\<rparr>)"
  using assms extract_event_no_size_no_event [of keys "inbuf s1 @ c1"]
  by (simp add: inputEventsProducer_append producer_loop_chunk)

theorem transparent_chunk_boundary_witness:
  "inputEventsProducer sample_keys assembler_init ([] @ chunk [0xE2] # chunk [0x82, 0xAC] # []) =
     inputEventsProducer sample_keys assembler_init ([] @ chunk ([0xE2] @ [0x82, 0xAC]) # [])
   \<and> inputEventsProducer sample_keys assembler_init ([] @ [chunk [0xE2]]) =
       Waiting \<lparr>inbuf = [0xE2], input_comm = []\<rparr>"
proof -
  have w: "inputEventsProducer sample_keys assembler_init [] = Waiting assembler_init"
    by code_simp
  have z: "fst (extract_event sample_keys (inbuf assembler_init @ [0xE2])) = 0"
    by code_simp
  show ?thesis
    using transparent_chunk_boundary [OF w z, of "[0x82, 0xAC]" "[]"]
    by (simp add: assembler_init_def)
qed

text \<open>
  A boundary inside an escape sequence is not transparent. With the sample table,
  \<^verbatim>\<open>"\x1b[A"\<close> in one chunk gives the single event ArrowUp. Delivered as \<^verbatim>\<open>"\x1b["\<close>
  and then \<^verbatim>\<open>"A"\<close>, the first chunk alone already gives the event Esc, and the
  second chunk gives the character \<^verbatim>\<open>[\<close>.
\<close>

theorem chunk_split_escape_counterexample:
  "inputEventsProducer sample_keys assembler_init [chunk [0x1B, 0x5B, 0x41]] =
     Waiting \<lparr>inbuf = [], input_comm = [keyEvent_key KeyArrowUp]\<rparr>
   \<and> inputEventsProducer sample_keys assembler_init [chunk [0x1B, 0x5B]] =
     Waiting \<lparr>inbuf = [0x5B], input_comm = [keyEvent_key KeyEsc]\<rparr>
   \<and> inputEventsProducer sample_keys assembler_init [chunk [0x1B, 0x5B], chunk [0x41]] =
     Waiting \<lparr>inbuf = [0x41], input_comm = [keyEvent_key KeyEsc, keyEvent_rune 0x5B]\<rparr>"
  by code_simp

section \<open>One variant for each event\<close>

text \<open>
  Claim C9. Every event that \<^verbatim>\<open>extract_event\<close> sends is of exactly one variant: a
  symbolic key (rune 0, nil error), a character (rune not 0, key 0, nil error) or a
  failure (error not nil, key 0, rune 0). The same holds for every event that
  \<^verbatim>\<open>inputEventsProducer\<close> has sent when it waits or has returned, provided that it held
  for the events sent before; and the goroutine never stops in a panic.
\<close>

theorem one_variant_invariant:
  "list_all one_variant (snd (extract_event keys buf))
   \<and> (list_all one_variant (input_comm s) \<longrightarrow>
        list_all one_variant (outcome_events (inputEventsProducer keys s msgs))
        \<and> inputEventsProducer keys s msgs \<noteq> Panicked)"
  using inputEventsProducer_invariant [of one_variant keys s msgs]
  by (simp add: extract_event_one_variant one_variant_events)

theorem one_variant_invariant_witness:
  "list_all one_variant (outcome_events (inputEventsProducer sample_keys assembler_init
      [chunk [0x1B, 0x5B, 0x41], chunk [0xE2, 0x82, 0xAC], failure ''EOF'']))
   \<and> outcome_events (inputEventsProducer sample_keys assembler_init
      [chunk [0x1B, 0x5B, 0x41], chunk [0xE2, 0x82, 0xAC], failure ''EOF''])
     = [keyEvent_key KeyArrowUp, keyEvent_rune 0x20AC, keyEvent_err ''EOF'']"
proof -
  have "outcome_events (inputEventsProducer sample_keys assembler_init
      [chunk [0x1B, 0x5B, 0x41], chunk [0xE2, 0x82, 0xAC], failure ''EOF''])
     = [keyEvent_key KeyArrowUp, keyEvent_rune 0x20AC, keyEvent_err ''EOF'']"
    by code_simp
  moreover have "list_all one_variant (input_comm assembler_init)"
    by (simp add: assembler_init_def)
  ultimately show ?thesis
    using one_variant_invariant [of sample_keys "[]" assembler_init
        "[chunk [0x1B, 0x5B, 0x41], chunk [0xE2, 0x82, 0xAC], failure ''EOF'']"]
    by simp
qed

end
